theory Spec2Isabelle
  imports Main "HOL-Library.Word"
begin

section \<open>Data model of gruppen.cpp\<close>

text \<open>
  The program keeps a database from GUIDs to surface indices (\<^verbatim>\<open>Flidx\<close>) and a database
  from group labels to queries. A query is a \<^verbatim>\<open>std::function<FlidxSet()>\<close>; the only
  queries the program builds are the four lambdas of \<^verbatim>\<open>QueryContext::createQuery\<close>.

  Both \<^verbatim>\<open>Flidx\<close> and \<^verbatim>\<open>GUID\<close> are \<^verbatim>\<open>int\<close>. The model fixes the usual LP64 target:
  \<^verbatim>\<open>int\<close> has 32 bits, \<^verbatim>\<open>size_t\<close> has 64 bits. Signed arithmetic that leaves the range
  of \<^verbatim>\<open>int\<close> is undefined in C++; the model gives it the two's complement result that
  the hardware computes. Memory is taken to be unbounded (no \<^verbatim>\<open>std::bad_alloc\<close>).
\<close>

type_synonym Flidx = "32 word"
type_synonym FlidxSet = "Flidx set"
type_synonym GUID = "32 word"
type_synonym GroupLabel = string

text \<open>
  The closure objects. Each constructor is one lambda of the source, named after the local
  variable that holds it, and carries what the lambda captures by value. The captured
  \<^verbatim>\<open>this\<close> is the one \<^verbatim>\<open>QueryContext\<close>; its state is handed to the call.
\<close>

datatype Query =
    Guid_query GUID
  | Guidrange_query GUID GUID
  | Label_query GroupLabel
  | List_query "Query list"

text \<open>
  The two members of \<^verbatim>\<open>QueryContext\<close> are references to the databases, so the state of
  the context is the current content of both.
\<close>

record QueryContext =
  guid_db :: "GUID \<rightharpoonup> Flidx"
  group_db :: "GroupLabel \<rightharpoonup> Query"

text \<open>
  The code has no error type. A call can go wrong in two ways besides not returning:
  \<^item> \<^verbatim>\<open>find(key)->second\<close> with an absent key reads through the past-the-end iterator,
    which is undefined behaviour;
  \<^item> the constructor of \<^verbatim>\<open>std::vector\<close> throws \<^verbatim>\<open>std::length_error\<close> when the requested
    size exceeds \<^verbatim>\<open>max_size()\<close>.
\<close>

datatype failure = UB_deref_end | Throw_length_error

type_synonym outcome = "(failure + FlidxSet) \<times> QueryContext"

section \<open>Building sets of surface indices\<close>

definition makeFlidxSet :: "Flidx \<Rightarrow> FlidxSet" where
  "makeFlidxSet single = insert single {}"

text \<open>\<^verbatim>\<open>max_size()\<close> of \<^verbatim>\<open>std::vector<int>\<close> on the LP64 target: \<^verbatim>\<open>PTRDIFF_MAX / sizeof(int)\<close>.\<close>

definition vector_max_size :: nat where
  "vector_max_size = (2 ^ 63 - 1) div 4"

text \<open>
  \<^verbatim>\<open>std::vector<int> vals(n)\<close> with an \<^verbatim>\<open>int\<close> argument: the argument is converted to
  \<^verbatim>\<open>size_t\<close> (sign extension), the constructor throws when that exceeds \<^verbatim>\<open>max_size()\<close>
  and otherwise yields that many zeros.
\<close>

definition vector_ctor :: "32 word \<Rightarrow> failure + Flidx list" where
  "vector_ctor n =
     (let count = unat (scast n :: 64 word)
      in if vector_max_size < count then Inl Throw_length_error
         else Inr (replicate count 0))"

text \<open>\<^verbatim>\<open>std::iota\<close>: every element in turn is assigned the value, which is then incremented.\<close>

fun iota :: "Flidx list \<Rightarrow> Flidx \<Rightarrow> Flidx list" where
  "iota [] v = []"
| "iota (x # xs) v = v # iota xs (v + 1)"

definition makeFlidxSet_range :: "Flidx \<Rightarrow> Flidx \<Rightarrow> failure + FlidxSet" where
  "makeFlidxSet_range first last' =
     (case vector_ctor (last' - first + 1) of
        Inl e \<Rightarrow> Inl e
      | Inr vals \<Rightarrow> Inr (set (iota vals first)))"

section \<open>Queries\<close>

text \<open>\<^verbatim>\<open>m.find(k)->second\<close>: the mapped value, or the undefined read when \<open>k\<close> is absent.\<close>

definition find_second :: "('k \<rightharpoonup> 'v) \<Rightarrow> 'k \<Rightarrow> failure + 'v" where
  "find_second m k = (case m k of None \<Rightarrow> Inl UB_deref_end | Some v \<Rightarrow> Inr v)"

text \<open>
  The four overloads of \<^verbatim>\<open>createQuery\<close>. Each one only wraps its arguments in a closure;
  the context \<open>this\<close> is captured as a pointer and not read.
\<close>

definition createQuery_guid :: "QueryContext \<Rightarrow> GUID \<Rightarrow> Query" where
  "createQuery_guid this guid = Guid_query guid"

definition createQuery_guidrange :: "QueryContext \<Rightarrow> GUID \<Rightarrow> GUID \<Rightarrow> Query" where
  "createQuery_guidrange this first last' = Guidrange_query first last'"

definition createQuery_label :: "QueryContext \<Rightarrow> GroupLabel \<Rightarrow> Query" where
  "createQuery_label this label = Label_query label"

definition createQuery_list :: "QueryContext \<Rightarrow> Query list \<Rightarrow> Query" where
  "createQuery_list this queries = List_query queries"

text \<open>
  The loop of \<^verbatim>\<open>list_query\<close> over the captured vector, with \<open>f\<close> the call of a child
  closure. A child that does not return makes the loop not return; a child that fails ends
  the loop with that failure; otherwise its result is inserted into \<open>combi_res\<close>.
\<close>

fun for_loop ::
  "(Query \<Rightarrow> QueryContext \<Rightarrow> outcome option) \<Rightarrow> Query list \<Rightarrow> FlidxSet \<Rightarrow> QueryContext
     \<Rightarrow> outcome option" where
  "for_loop f [] combi_res this = Some (Inr combi_res, this)"
| "for_loop f (query # rest) combi_res this =
     Option.bind (f query this) (\<lambda>(r, this').
        case r of
          Inl e \<Rightarrow> Some (Inl e, this')
        | Inr query_res \<Rightarrow> for_loop f rest (combi_res \<union> query_res) this')"

lemma for_loop_mono [partial_function_mono]:
  assumes "\<And>q s. mono_option (\<lambda>f. g f q s)"
  shows "mono_option (\<lambda>f. for_loop (g f) qs acc s)"
proof (induction qs arbitrary: acc s)
  case Nil
  show ?case by (simp add: option.const_mono)
next
  case (Cons q qs)
  have step: "mono_option (\<lambda>f. case y of (r, this') \<Rightarrow>
        (case r of Inl e \<Rightarrow> Some (Inl e, this')
                | Inr query_res \<Rightarrow> for_loop (g f) qs (acc \<union> query_res) this'))" for y
  proof (cases y)
    case (Pair r this')
    then show ?thesis
      by (cases r) (simp_all add: option.const_mono Cons.IH)
  qed
  show ?case
    unfolding for_loop.simps
    by (rule bind_mono) (rule assms, rule step)
qed

text \<open>
  Calling a closure in the current state of the context. The result is \<open>None\<close> when the
  call does not return (the recursion through the group database has no bound), and
  otherwise the returned set or the failure, together with the state of the context after
  the call.
\<close>

partial_function (option) call :: "Query \<Rightarrow> QueryContext \<Rightarrow> outcome option" where
  "call q this =
     (case q of
        Guid_query guid \<Rightarrow>
          (case find_second (guid_db this) guid of
             Inl e \<Rightarrow> Some (Inl e, this)
           | Inr single \<Rightarrow> Some (Inr (makeFlidxSet single), this))
      | Guidrange_query first last' \<Rightarrow>
          (case find_second (guid_db this) first of
             Inl e \<Rightarrow> Some (Inl e, this)
           | Inr v1 \<Rightarrow>
               (case find_second (guid_db this) last' of
                  Inl e \<Rightarrow> Some (Inl e, this)
                | Inr v2 \<Rightarrow> Some (makeFlidxSet_range v1 v2, this)))
      | Label_query label \<Rightarrow>
          (case find_second (group_db this) label of
             Inl e \<Rightarrow> Some (Inl e, this)
           | Inr query \<Rightarrow> call query this)
      | List_query queries \<Rightarrow> for_loop call queries {} this)"

text \<open>\<^verbatim>\<open>group_db[label] = query\<close>, as \<^verbatim>\<open>main\<close> registers a group.\<close>

definition register_group :: "GroupLabel \<Rightarrow> Query \<Rightarrow> QueryContext \<Rightarrow> QueryContext" where
  "register_group label query this = this\<lparr>group_db := (group_db this)(label \<mapsto> query)\<rparr>"

section \<open>Vocabulary of the properties\<close>

text \<open>The set a call returned, and whether it returned one.\<close>

definition returned :: "outcome option \<Rightarrow> FlidxSet" where
  "returned r = (case r of Some (Inr X, s) \<Rightarrow> X | _ \<Rightarrow> {})"

definition succeeds :: "outcome option \<Rightarrow> bool" where
  "succeeds r = (case r of Some (Inr X, s) \<Rightarrow> True | _ \<Rightarrow> False)"

text \<open>
  The specification names three error kinds. The code defines none of them: the only
  failure that reaches the caller in a defined way is the exception
  \<^verbatim>\<open>std::length_error\<close>, and it can only come from the vector of a range query. So a
  call reports an error kind exactly when it throws that exception and the kind is
  \<open>InvalidRange\<close>; an undefined read and a call that does not return report nothing.
\<close>

datatype spec_error = NotFound | InvalidRange | CycleDetected

definition fails_with :: "spec_error \<Rightarrow> outcome option \<Rightarrow> bool" where
  "fails_with e r =
     (case r of
        Some (Inl Throw_length_error, s) \<Rightarrow> e = InvalidRange
      | _ \<Rightarrow> False)"

text \<open>Group \<open>a\<close> is registered as a reference to group \<open>b\<close>.\<close>

definition refers :: "QueryContext \<Rightarrow> GroupLabel \<Rightarrow> GroupLabel \<Rightarrow> bool" where
  "refers this a b = (group_db this a = Some (Label_query b))"

section \<open>The databases of the driver\<close>

text \<open>
  \<^verbatim>\<open>main\<close> fills the GUID database with four entries, builds the context over it and an
  empty group database, and then registers the query for GUID 0 as group \<^verbatim>\<open>otto\<close>.
\<close>

definition main_guid_db :: "GUID \<rightharpoonup> Flidx" where
  "main_guid_db = [0 \<mapsto> 0, 16 \<mapsto> 1, 32 \<mapsto> 2, 64 \<mapsto> 3]"

definition main_factory :: QueryContext where
  "main_factory = \<lparr>guid_db = main_guid_db, group_db = Map.empty\<rparr>"

definition main_registered :: QueryContext where
  "main_registered = register_group ''otto'' (createQuery_guid main_factory 0) main_factory"

text \<open>The vector that \<^verbatim>\<open>main\<close> passes to the last \<^verbatim>\<open>createQuery\<close>.\<close>

definition main_queries :: "Query list" where
  "main_queries =
     [createQuery_label main_factory ''otto'', createQuery_label main_factory ''otto'',
      createQuery_guid main_factory 16, createQuery_guid main_factory 32,
      createQuery_guid main_factory 64]"

text \<open>
  Further states of the databases: group \<^verbatim>\<open>otto\<close> registered as a reference to itself;
  two groups registered as references to each other; a GUID database whose values lie
  further apart than \<^verbatim>\<open>INT_MAX\<close>.
\<close>

definition self_referring :: QueryContext where
  "self_referring =
     register_group ''otto'' (createQuery_label main_factory ''otto'') main_factory"

definition mutually_referring :: QueryContext where
  "mutually_referring =
     register_group ''anna'' (createQuery_label main_factory ''otto'')
       (register_group ''otto'' (createQuery_label main_factory ''anna'') main_factory)"

definition wide_factory :: QueryContext where
  "wide_factory = \<lparr>guid_db = [0 \<mapsto> - 1, 1 \<mapsto> 2147483647], group_db = Map.empty\<rparr>"

section \<open>The caller of the list query\<close>

text \<open>
  \<^verbatim>\<open>createQuery(std::vector<Query> const& queries)\<close> receives a reference to a vector that
  the caller owns, and the lambda captures \<^verbatim>\<open>queries\<close> by copy. The caller's side is the
  context together with its vector objects by address. After the query is built the
  caller can give a vector a new content or end its lifetime; \<^verbatim>\<open>main\<close> does the latter: the
  vector of line 107 is a temporary, gone before line 109 calls the query.
\<close>

record Driver =
  factory :: QueryContext
  vectors :: "nat \<rightharpoonup> Query list"

datatype caller_action = Assign nat "Query list" | Destroy nat

fun caller_step :: "caller_action \<Rightarrow> Driver \<Rightarrow> Driver" where
  "caller_step (Assign a queries) d = d\<lparr>vectors := (vectors d)(a \<mapsto> queries)\<rparr>"
| "caller_step (Destroy a) d = d\<lparr>vectors := (vectors d)(a := None)\<rparr>"

text \<open>
  \<^verbatim>\<open>factory.createQuery(v)\<close> for the caller's vector at address \<open>a\<close>: the closure is built
  from the content the vector has at that moment. There is no result when no vector lives
  at \<open>a\<close>, since a reference cannot be bound to it.
\<close>

definition createQuery_vector :: "Driver \<Rightarrow> nat \<Rightarrow> Query option" where
  "createQuery_vector d a = map_option (createQuery_list (factory d)) (vectors d a)"

text \<open>The caller's \<^verbatim>\<open>query()\<close>: the closure runs on the databases of the context.\<close>

definition invoke :: "Query \<Rightarrow> Driver \<Rightarrow> outcome option" where
  "invoke query d = call query (factory d)"

text \<open>
  The caller of \<^verbatim>\<open>main\<close> at line 107, and a caller whose vector holds the query for an
  absent GUID followed by a reference to a group that refers to itself.
\<close>

definition main_driver :: Driver where
  "main_driver = \<lparr>factory = main_registered, vectors = [0 \<mapsto> main_queries]\<rparr>"

definition failing_driver :: Driver where
  "failing_driver =
     \<lparr>factory = self_referring,
      vectors = [0 \<mapsto> [createQuery_guid self_referring 48,
                          createQuery_label self_referring ''otto'']]\<rparr>"

section \<open>The call, closure by closure\<close>

lemma call_Guid_query:
  "call (Guid_query guid) this =
     (case find_second (guid_db this) guid of
        Inl e \<Rightarrow> Some (Inl e, this)
      | Inr single \<Rightarrow> Some (Inr (makeFlidxSet single), this))"
  by (subst call.simps) simp

lemma call_Guidrange_query:
  "call (Guidrange_query first last') this =
     (case find_second (guid_db this) first of
        Inl e \<Rightarrow> Some (Inl e, this)
      | Inr v1 \<Rightarrow>
          (case find_second (guid_db this) last' of
             Inl e \<Rightarrow> Some (Inl e, this)
           | Inr v2 \<Rightarrow> Some (makeFlidxSet_range v1 v2, this)))"
  by (subst call.simps) simp

lemma call_Label_query:
  "call (Label_query label) this =
     (case find_second (group_db this) label of
        Inl e \<Rightarrow> Some (Inl e, this)
      | Inr query \<Rightarrow> call query this)"
  by (subst call.simps) simp

lemma call_List_query:
  "call (List_query queries) this = for_loop call queries {} this"
  by (subst call.simps) simp

section \<open>The vector of a range\<close>

lemma sint_bounds32: "- (2 ^ 31) \<le> sint (n::32 word) \<and> sint n < 2 ^ 31"
  using sint_range_size [of n] by (simp add: word_size)

lemma uint_scast_64: "uint (scast (n::32 word) :: 64 word) = take_bit 64 (sint n)"
  unfolding scast_eq uint_word_of_int_eq by simp

lemma unat_scast_nonneg:
  assumes "0 \<le> sint (n::32 word)"
  shows "unat (scast n :: 64 word) = nat (sint n)"
proof -
  have "sint n < 2 ^ 64" using sint_bounds32 [of n] by simp
  with assms have "take_bit 64 (sint n) = sint n"
    by (simp add: take_bit_int_eq_self)
  then show ?thesis
    by (simp add: unat_eq_nat_uint uint_scast_64)
qed

lemma unat_scast_neg:
  assumes "sint (n::32 word) < 0"
  shows "unat (scast n :: 64 word) = nat (2 ^ 64 + sint n)"
proof -
  have "0 < - sint n" "- sint n \<le> 2 ^ 64"
    using assms sint_bounds32 [of n] by simp_all
  then have "take_bit 64 (- (- sint n)) = 2 ^ 64 - (- sint n)"
    by (rule take_bit_minus_small_eq)
  then show ?thesis
    by (simp add: unat_eq_nat_uint uint_scast_64)
qed

lemma vector_ctor_nonneg:
  assumes "0 \<le> sint n"
  shows "vector_ctor n = Inr (replicate (nat (sint n)) 0)"
proof -
  have "nat (sint n) \<le> vector_max_size"
    using sint_bounds32 [of n] by (auto simp: vector_max_size_def)
  then show ?thesis
    by (simp add: vector_ctor_def unat_scast_nonneg [OF assms])
qed

lemma vector_ctor_neg:
  assumes "sint n < 0"
  shows "vector_ctor n = Inl Throw_length_error"
proof -
  have "vector_max_size < nat (2 ^ 64 + sint n)"
    using sint_bounds32 [of n] by (auto simp: vector_max_size_def)
  then show ?thesis
    by (simp add: vector_ctor_def unat_scast_neg [OF assms])
qed

lemma set_iota: "set (iota xs v) = (\<lambda>i. v + of_nat i) ` {..<length xs}"
proof (induction xs arbitrary: v)
  case Nil
  show ?case by simp
next
  case (Cons x xs)
  have "(\<lambda>i. v + of_nat i) ` {..<Suc (length xs)}
        = insert v ((\<lambda>i. v + 1 + of_nat i) ` {..<length xs})"
    by (simp add: lessThan_Suc_eq_insert_0 image_image add.assoc)
  with Cons.IH [of "v + 1"] show ?case by simp
qed

lemma sint_length:
  "sint (last' - first + 1 :: 32 word) = signed_take_bit 31 (sint last' - sint first + 1)"
proof -
  have "last' - first + 1 = (word_of_int (sint last' - sint first + 1) :: 32 word)"
    by simp
  then show ?thesis
    by (simp only: sint_sbintrunc') simp
qed

lemma sint_add_of_nat:
  assumes "sint (v::32 word) + int i < 2 ^ 31"
  shows "sint (v + of_nat i) = sint v + int i"
proof -
  have "v + of_nat i = (word_of_int (sint v + int i) :: 32 word)"
    by simp
  then have "sint (v + of_nat i) = signed_take_bit 31 (sint v + int i)"
    by (simp only: sint_sbintrunc') simp
  moreover have "- (2 ^ 31) \<le> sint v + int i"
    using sint_bounds32 [of v] by linarith
  ultimately show ?thesis
    using assms by (simp add: signed_take_bit_int_eq_self)
qed

lemma inj_on_offsets:
  "inj_on (\<lambda>i. (v::32 word) + of_nat i) {..<n}" if "n \<le> 2 ^ 32"
proof (rule inj_onI)
  fix i j assume "i \<in> {..<n}" "j \<in> {..<n}" and eq: "v + of_nat i = v + of_nat j"
  then have "i < n" "j < n" by simp_all
  from this(1) that have i: "i < 2 ^ 32" by (rule less_le_trans)
  from \<open>j < n\<close> that have j: "j < 2 ^ 32" by (rule less_le_trans)
  from i have ti: "take_bit 32 i = i" by (rule take_bit_nat_eq_self)
  from j have tj: "take_bit 32 j = j" by (rule take_bit_nat_eq_self)
  from eq have "(of_nat i :: 32 word) = of_nat j" by (simp only: add_left_cancel)
  then have "take_bit LENGTH(32) i = take_bit LENGTH(32) j"
    by (simp only: word_of_nat_eq_iff)
  moreover have "LENGTH(32) = 32" by simp
  ultimately have tij: "take_bit 32 i = take_bit 32 j" by (simp only:)
  from ti have "i = take_bit 32 i" by (rule sym)
  also note tij
  also note tj
  finally show "i = j" .
qed

lemma makeFlidxSet_range_ordered:
  assumes le: "sint first \<le> sint last'" and fit: "sint last' - sint first + 1 < 2 ^ 31"
  shows "makeFlidxSet_range first last' = Inr {w. first \<le>s w \<and> w \<le>s last'}"
    and "card {w. first \<le>s w \<and> w \<le>s last'} = nat (sint last' - sint first + 1)"
proof -
  let ?d = "sint last' - sint first + 1"
  let ?k = "nat ?d"
  let ?S = "(\<lambda>i. first + of_nat i) ` {..<?k}"
  have len: "sint (last' - first + 1) = ?d"
    using le fit by (simp add: sint_length signed_take_bit_int_eq_self)
  have ctor: "vector_ctor (last' - first + 1) = Inr (replicate ?k 0)"
    using vector_ctor_nonneg [of "last' - first + 1"] le by (simp add: len)
  have off: "sint (first + of_nat i) = sint first + int i" if "i < ?k" for i
  proof -
    have "sint first + int i \<le> sint last'" using that by linarith
    with sint_bounds32 [of last'] have "sint first + int i < 2 ^ 31" by linarith
    then show ?thesis by (rule sint_add_of_nat)
  qed
  have S: "?S = {w. first \<le>s w \<and> w \<le>s last'}"
  proof (intro set_eqI iffI)
    fix w assume "w \<in> ?S"
    then obtain i where i: "i < ?k" and w: "w = first + of_nat i" by auto
    from i have "sint first + int i \<le> sint last'" by linarith
    with off [OF i] show "w \<in> {w. first \<le>s w \<and> w \<le>s last'}"
      by (simp add: w word_sle_eq)
  next
    fix w assume "w \<in> {w. first \<le>s w \<and> w \<le>s last'}"
    then have bw: "sint first \<le> sint w" "sint w \<le> sint last'"
      by (simp_all add: word_sle_eq)
    define i where "i = nat (sint w - sint first)"
    have i: "i < ?k" using bw by (simp add: i_def)
    have "sint (first + of_nat i) = sint w"
      using off [OF i] bw by (simp add: i_def)
    then have "first + of_nat i = w" by (rule signed_word_eqI)
    then have "w = first + of_nat i" by simp
    with i show "w \<in> ?S" by blast
  qed
  show "makeFlidxSet_range first last' = Inr {w. first \<le>s w \<and> w \<le>s last'}"
    by (simp add: makeFlidxSet_range_def ctor set_iota S)
  have "?k \<le> 2 ^ 32" using fit by (simp add: nat_le_iff)
  then have "inj_on (\<lambda>i. first + of_nat i) {..<?k}"
    by (rule inj_on_offsets)
  then have "card ?S = card {..<?k}"
    by (rule card_image)
  then have "card ?S = ?k"
    by (simp only: card_lessThan)
  then show "card {w. first \<le>s w \<and> w \<le>s last'} = ?k"
    by (simp only: S)
qed

lemma makeFlidxSet_range_adjacent:
  assumes "sint first = sint last' + 1"
  shows "makeFlidxSet_range first last' = Inr {}"
proof -
  have "sint (last' - first + 1) = 0"
    using assms by (simp add: sint_length)
  then have "vector_ctor (last' - first + 1) = Inr []"
    using vector_ctor_nonneg [of "last' - first + 1"] by simp
  then show ?thesis by (simp add: makeFlidxSet_range_def)
qed

lemma makeFlidxSet_range_reversed:
  assumes "sint last' + 1 < sint first" and "sint first - sint last' \<le> 2 ^ 31"
  shows "makeFlidxSet_range first last' = Inl Throw_length_error"
proof -
  have "sint (last' - first + 1) = sint last' - sint first + 1"
    using assms by (simp add: sint_length signed_take_bit_int_eq_self)
  with assms have "sint (last' - first + 1) < 0" by simp
  then show ?thesis
    by (simp add: makeFlidxSet_range_def vector_ctor_neg)
qed

section \<open>Properties of the call\<close>

lemma for_loop_frame:
  assumes "\<And>q s y. f q s = Some y \<Longrightarrow> snd y = s"
  shows "for_loop f qs acc s = Some y \<Longrightarrow> snd y = s"
proof (induction qs arbitrary: acc s)
  case Nil
  then show ?case by auto
next
  case (Cons q qs)
  then show ?case
    using assms [of q s]
    by (auto split: Option.bind_splits sum.splits prod.splits)
qed

lemma call_frame: "call q s = Some y \<Longrightarrow> snd y = s"
proof (erule call.raw_induct [where P = "\<lambda>q s y. snd y = s", rotated])
  fix call' :: "Query \<Rightarrow> QueryContext \<Rightarrow> outcome option" and q s y
  assume IH: "\<And>q s y. call' q s = Some y \<Longrightarrow> snd y = s"
  let ?body = "case q of
        Guid_query guid \<Rightarrow>
          (case find_second (guid_db s) guid of
             Inl e \<Rightarrow> Some (Inl e, s)
           | Inr single \<Rightarrow> Some (Inr (makeFlidxSet single), s))
      | Guidrange_query first last' \<Rightarrow>
          (case find_second (guid_db s) first of
             Inl e \<Rightarrow> Some (Inl e, s)
           | Inr v1 \<Rightarrow>
               (case find_second (guid_db s) last' of
                  Inl e \<Rightarrow> Some (Inl e, s)
                | Inr v2 \<Rightarrow> Some (makeFlidxSet_range v1 v2, s)))
      | Label_query label \<Rightarrow>
          (case find_second (group_db s) label of
             Inl e \<Rightarrow> Some (Inl e, s)
           | Inr query \<Rightarrow> call' query s)
      | List_query queries \<Rightarrow> for_loop call' queries {} s"
  assume body: "?body = Some y"
  show "snd y = s"
  proof (cases q)
    case (Guid_query guid)
    with body show ?thesis by (auto split: sum.splits)
  next
    case (Guidrange_query first last')
    with body show ?thesis by (auto split: sum.splits)
  next
    case (Label_query label)
    show ?thesis
    proof (cases "group_db s label")
      case None
      with body Label_query show ?thesis by (auto simp: find_second_def)
    next
      case (Some query)
      with body Label_query have "call' query s = Some y"
        by (simp add: find_second_def)
      then show ?thesis by (rule IH)
    qed
  next
    case (List_query queries)
    with body have "for_loop call' queries {} s = Some y" by simp
    then show ?thesis by (rule for_loop_frame [rotated]) (rule IH)
  qed
qed

lemma refers_step:
  assumes cyc: "(refers s)\<^sup>+\<^sup>+ a a" and b: "(refers s)\<^sup>+\<^sup>+ b a"
  shows "\<exists>c. group_db s b = Some (Label_query c) \<and> (refers s)\<^sup>+\<^sup>+ c a"
proof -
  from b obtain c where bc: "refers s b c" and ca: "(refers s)\<^sup>*\<^sup>* c a"
    by (auto dest: tranclpD)
  from ca have "(refers s)\<^sup>+\<^sup>+ c a"
  proof (cases rule: rtranclp.cases)
    case rtrancl_refl
    with cyc show ?thesis by simp
  next
    case (rtrancl_into_rtrancl d)
    then show ?thesis by (rule rtranclp_into_tranclp1)
  qed
  with bc show ?thesis by (auto simp: refers_def)
qed

lemma call_on_cycle:
  assumes cyc: "(refers s)\<^sup>+\<^sup>+ a a"
  shows "call (Label_query a) s = None"
proof -
  let ?P = "\<lambda>q s' (y::outcome). \<not> (\<exists>b. q = Label_query b \<and> s' = s \<and> (refers s)\<^sup>+\<^sup>+ b a)"
  have key: "?P q s' y" if "call q s' = Some y" for q s' y
    using that
  proof (rule call.raw_induct [where P = ?P, rotated])
    fix call' :: "Query \<Rightarrow> QueryContext \<Rightarrow> outcome option" and q s' y
    assume IH: "\<And>q s' y. call' q s' = Some y \<Longrightarrow> ?P q s' y"
    let ?body = "case q of
        Guid_query guid \<Rightarrow>
          (case find_second (guid_db s') guid of
             Inl e \<Rightarrow> Some (Inl e, s')
           | Inr single \<Rightarrow> Some (Inr (makeFlidxSet single), s'))
      | Guidrange_query first last' \<Rightarrow>
          (case find_second (guid_db s') first of
             Inl e \<Rightarrow> Some (Inl e, s')
           | Inr v1 \<Rightarrow>
               (case find_second (guid_db s') last' of
                  Inl e \<Rightarrow> Some (Inl e, s')
                | Inr v2 \<Rightarrow> Some (makeFlidxSet_range v1 v2, s')))
      | Label_query label \<Rightarrow>
          (case find_second (group_db s') label of
             Inl e \<Rightarrow> Some (Inl e, s')
           | Inr query \<Rightarrow> call' query s')
      | List_query queries \<Rightarrow> for_loop call' queries {} s'"
    assume body: "?body = Some y"
    show "?P q s' y"
    proof
      assume "\<exists>b. q = Label_query b \<and> s' = s \<and> (refers s)\<^sup>+\<^sup>+ b a"
      then obtain b where q: "q = Label_query b" and s: "s' = s" and b: "(refers s)\<^sup>+\<^sup>+ b a"
        by blast
      from refers_step [OF cyc b] obtain c
        where c: "group_db s b = Some (Label_query c)" and ca: "(refers s)\<^sup>+\<^sup>+ c a"
        by blast
      from body have "call' (Label_query c) s = Some y"
        by (simp add: q s c find_second_def)
      from IH [OF this] ca show False by simp
    qed
  qed
  show ?thesis
  proof (cases "call (Label_query a) s")
    case None
    then show ?thesis .
  next
    case (Some y)
    from key [OF this] cyc show ?thesis by blast
  qed
qed

lemma for_loop_all_succeed:
  assumes "\<forall>q\<in>set qs. succeeds (f q s)" and "\<And>q s y. f q s = Some y \<Longrightarrow> snd y = s"
  shows "for_loop f qs acc s = Some (Inr (acc \<union> (\<Union>q\<in>set qs. returned (f q s))), s)"
  using assms(1)
proof (induction qs arbitrary: acc)
  case Nil
  show ?case by simp
next
  case (Cons q qs)
  from Cons.prems obtain X s' where q: "f q s = Some (Inr X, s')"
    by (auto simp: succeeds_def split: option.splits sum.splits prod.splits)
  with assms(2) [of q s] have s': "s' = s" by simp
  from Cons.prems have "\<forall>q\<in>set qs. succeeds (f q s)" by simp
  from Cons.IH [OF this, of "acc \<union> X"] show ?case
    by (simp add: q s' returned_def Un_assoc)
qed

lemma call_list_all_succeed:
  assumes "\<forall>q\<in>set queries. succeeds (call q s)"
  shows "call (List_query queries) s
           = Some (Inr (\<Union>q\<in>set queries. returned (call q s)), s)"
proof -
  have "for_loop call queries {} s
          = Some (Inr ({} \<union> (\<Union>q\<in>set queries. returned (call q s))), s)"
    using assms by (rule for_loop_all_succeed) (rule call_frame)
  then show ?thesis by (simp add: call_List_query)
qed

lemma factory_caller_steps: "factory (fold caller_step later d) = factory d"
proof (induction later arbitrary: d)
  case Nil
  show ?case by simp
next
  case (Cons x later)
  have "factory (caller_step x d) = factory d" by (cases x) simp_all
  with Cons.IH [of "caller_step x d"] show ?case by simp
qed

lemma for_loop_first_unsuccessful:
  assumes frame: "\<And>q s y. f q s = Some y \<Longrightarrow> snd y = s"
    and pre: "\<forall>p\<in>set pre. succeeds (f p s)" and q: "\<not> succeeds (f q s)"
  shows "for_loop f (pre @ q # post) acc s = f q s"
  using pre
proof (induction pre arbitrary: acc)
  case Nil
  show ?case
  proof (cases "f q s")
    case None
    then show ?thesis by simp
  next
    case (Some y)
    obtain r s' where y: "y = (r, s')" by (cases y)
    from q Some y obtain e where "r = Inl e"
      by (cases r) (simp_all add: succeeds_def)
    with Some y show ?thesis by simp
  qed
next
  case (Cons p pre)
  from Cons.prems obtain X s' where p: "f p s = Some (Inr X, s')"
    by (auto simp: succeeds_def split: option.splits sum.splits prod.splits)
  with frame [of p s] have s': "s' = s" by simp
  from Cons.prems have "\<forall>p\<in>set pre. succeeds (f p s)" by simp
  from Cons.IH [OF this, of "acc \<union> X"] show ?case
    by (simp add: p s')
qed

lemma call_list_first_unsuccessful:
  assumes "\<forall>p\<in>set pre. succeeds (call p s)" and "\<not> succeeds (call q s)"
  shows "call (List_query (pre @ q # post)) s = call q s"
  unfolding call_List_query
  using call_frame assms by (rule for_loop_first_unsuccessful)

section \<open>The run of the driver\<close>

lemma call_otto:
  "call (createQuery_label main_factory ''otto'') main_registered
     = Some (Inr {0}, main_registered)"
  by (simp add: createQuery_label_def createQuery_guid_def call_Label_query call_Guid_query
      find_second_def makeFlidxSet_def main_registered_def register_group_def
      main_factory_def main_guid_db_def)

lemma call_main_points:
  "call (createQuery_guid main_factory 16) main_registered = Some (Inr {1}, main_registered)"
  "call (createQuery_guid main_factory 32) main_registered = Some (Inr {2}, main_registered)"
  "call (createQuery_guid main_factory 64) main_registered = Some (Inr {3}, main_registered)"
  by (simp_all add: createQuery_guid_def call_Guid_query
      find_second_def makeFlidxSet_def main_registered_def register_group_def
      main_factory_def main_guid_db_def)

lemma call_reversed_range:
  "call (createQuery_guidrange main_factory 64 16) main_factory
     = Some (Inl Throw_length_error, main_factory)"
proof -
  have "makeFlidxSet_range 3 1 = Inl Throw_length_error"
    by (rule makeFlidxSet_range_reversed) simp_all
  then show ?thesis
    by (simp add: createQuery_guidrange_def call_Guidrange_query find_second_def
        main_factory_def main_guid_db_def)
qed

section \<open>The claims\<close>

text \<open>
  C1. Group references are bound late: the closure of \<^verbatim>\<open>createQuery(label)\<close> looks the
  label up in the group database at every call. Built while the label is unregistered, its
  call after \<^verbatim>\<open>group_db[g] = q\<close> is the call of \<open>q\<close> in that state of the databases: the
  same set whenever \<open>q\<close> returns one, the same failure or the same absence of a result
  otherwise. Its call before the registration reads through the past-the-end iterator of
  the group database, which is undefined behaviour and reports no error kind.
\<close>

theorem group_reference_late_binding:
  assumes "group_db s g = None"
  shows "call (createQuery_label s g) s = Some (Inl UB_deref_end, s)
         \<and> \<not> fails_with e (call (createQuery_label s g) s)
         \<and> call (createQuery_label s g) (register_group g q s) = call q (register_group g q s)"
  using assms
  by (simp add: createQuery_label_def call_Label_query find_second_def fails_with_def
      register_group_def)

theorem group_reference_late_binding_witness:
  "group_db main_factory ''otto'' = None
   \<and> call (createQuery_label main_factory ''otto'') main_factory
       = Some (Inl UB_deref_end, main_factory)
   \<and> call (createQuery_label main_factory ''otto'') main_registered
       = Some (Inr {0}, main_registered)"
proof -
  have h: "group_db main_factory ''otto'' = None"
    by (simp add: main_factory_def)
  have q: "call (createQuery_guid main_factory 0) main_registered = Some (Inr {0}, main_registered)"
    by (simp add: createQuery_guid_def call_Guid_query find_second_def makeFlidxSet_def
        main_registered_def register_group_def main_factory_def main_guid_db_def)
  from h q group_reference_late_binding [OF h, of NotFound "createQuery_guid main_factory 0"]
  show ?thesis by (simp add: main_registered_def)
qed

text \<open>
  As the claim is worded, the call before the registration fails with \<open>NotFound\<close>. In the
  driver's databases before \<^verbatim>\<open>otto\<close> is registered it does not.
\<close>

theorem group_reference_unregistered_counterexample:
  "group_db main_factory ''otto'' = None
   \<and> call (createQuery_label main_factory ''otto'') main_factory
       = Some (Inl UB_deref_end, main_factory)
   \<and> \<not> fails_with NotFound (call (createQuery_label main_factory ''otto'') main_factory)"
  by (simp add: main_factory_def createQuery_label_def call_Label_query find_second_def
      fails_with_def)

text \<open>
  C2. A range whose first value lies above its last value. When the first value is the
  last value plus one, the requested vector has length zero and the call returns the empty
  set. When it lies further above (and the difference stays within \<open>2 ^ 31\<close>, so that the
  length does not wrap around), the length is negative, its conversion to \<^verbatim>\<open>size_t\<close>
  exceeds \<^verbatim>\<open>max_size()\<close>, and the call throws \<^verbatim>\<open>std::length_error\<close> without returning a
  set.
\<close>

theorem range_query_reversed:
  assumes "guid_db s first = Some lo" and "guid_db s last' = Some hi"
    and "hi <s lo" and "sint lo - sint hi \<le> 2 ^ 31"
  shows "call (createQuery_guidrange this first last') s
           = Some (if sint lo = sint hi + 1 then Inr {} else Inl Throw_length_error, s)"
proof (cases "sint lo = sint hi + 1")
  case True
  then show ?thesis
    by (simp add: createQuery_guidrange_def call_Guidrange_query find_second_def assms(1,2)
        makeFlidxSet_range_adjacent)
next
  case False
  with assms(3) have "sint hi + 1 < sint lo" by (simp add: word_sless_alt)
  then have "makeFlidxSet_range lo hi = Inl Throw_length_error"
    using assms(4) by (rule makeFlidxSet_range_reversed)
  with False show ?thesis
    by (simp add: createQuery_guidrange_def call_Guidrange_query find_second_def assms(1,2))
qed

theorem range_query_reversed_witness:
  "guid_db main_factory 64 = Some 3 \<and> guid_db main_factory 16 = Some 1
   \<and> (1 :: Flidx) <s 3 \<and> sint (3 :: Flidx) - sint (1 :: Flidx) \<le> 2 ^ 31
   \<and> call (createQuery_guidrange main_factory 64 16) main_factory
       = Some (Inl Throw_length_error, main_factory)"
proof -
  have h1: "guid_db main_factory 64 = Some 3" and h2: "guid_db main_factory 16 = Some 1"
    by (simp_all add: main_factory_def main_guid_db_def)
  have h3: "(1 :: Flidx) <s 3" by (simp add: word_sless_alt)
  have h4: "sint (3 :: Flidx) - sint (1 :: Flidx) \<le> 2 ^ 31" by simp
  from h1 h2 h3 h4 range_query_reversed [OF h1 h2 h3 h4, of main_factory]
  show ?thesis by simp
qed

text \<open>
  As the claim is worded, every such range fails and never returns a set. The range from
  GUID 16 (value 1) to GUID 0 (value 0) of the driver's database returns the empty set.
\<close>

theorem range_query_reversed_counterexample:
  "guid_db main_factory 16 = Some 1 \<and> guid_db main_factory 0 = Some 0
   \<and> sint (0 :: Flidx) < sint (1 :: Flidx)
   \<and> call (createQuery_guidrange main_factory 16 0) main_factory = Some (Inr {}, main_factory)"
proof -
  have "makeFlidxSet_range 1 0 = Inr {}"
    by (rule makeFlidxSet_range_adjacent) simp
  then show ?thesis
    by (simp add: createQuery_guidrange_def call_Guidrange_query find_second_def
        main_factory_def main_guid_db_def)
qed

text \<open>
  C3. When a group is registered as a reference that leads back to its own label through
  a chain of group references, neither the call of a reference to that group nor the call
  of the query registered for it returns: the recursion through the group database has no
  bound and no guard, and no error kind is reported.
\<close>

theorem group_cycle_never_returns:
  assumes "(refers s)\<^sup>+\<^sup>+ g g"
  shows "call (createQuery_label this g) s = None
         \<and> (\<exists>q. group_db s g = Some q \<and> call q s = None)
         \<and> \<not> fails_with e (call (createQuery_label this g) s)"
proof -
  have none: "call (Label_query g) s = None"
    using assms by (rule call_on_cycle)
  from assms obtain b where "refers s g b"
    by (auto dest: tranclpD)
  then have reg: "group_db s g = Some (Label_query b)"
    by (simp add: refers_def)
  with none have "call (Label_query b) s = None"
    by (simp add: call_Label_query find_second_def)
  with reg none show ?thesis
    by (simp add: createQuery_label_def fails_with_def)
qed

theorem group_cycle_never_returns_witness:
  "(refers mutually_referring)\<^sup>+\<^sup>+ ''otto'' ''otto''
   \<and> call (createQuery_label main_factory ''otto'') mutually_referring = None
   \<and> call (createQuery_label main_factory ''anna'') mutually_referring = None
   \<and> \<not> fails_with CycleDetected
        (call (createQuery_label main_factory ''otto'') mutually_referring)"
proof -
  have "refers mutually_referring ''otto'' ''anna''"
    by (simp add: refers_def mutually_referring_def register_group_def createQuery_label_def)
  moreover have "refers mutually_referring ''anna'' ''otto''"
    by (simp add: refers_def mutually_referring_def register_group_def createQuery_label_def)
  ultimately have h: "(refers mutually_referring)\<^sup>+\<^sup>+ ''otto'' ''otto''"
    by (rule tranclp.intros(2) [OF tranclp.intros(1)])
  have reg: "group_db mutually_referring ''otto'' = Some (createQuery_label main_factory ''anna'')"
    by (simp add: mutually_referring_def register_group_def createQuery_label_def)
  from h reg group_cycle_never_returns [OF h, of main_factory CycleDetected]
  show ?thesis by auto
qed

text \<open>
  As the claim is worded, the call fails with \<open>CycleDetected\<close>. With \<^verbatim>\<open>otto\<close> registered
  as a reference to \<^verbatim>\<open>otto\<close> it does not return at all.
\<close>

theorem group_cycle_counterexample:
  "refers self_referring ''otto'' ''otto''
   \<and> call (createQuery_label main_factory ''otto'') self_referring = None
   \<and> \<not> fails_with CycleDetected (call (createQuery_label main_factory ''otto'') self_referring)"
proof -
  have r: "refers self_referring ''otto'' ''otto''"
    by (simp add: refers_def self_referring_def register_group_def createQuery_label_def)
  then have "(refers self_referring)\<^sup>+\<^sup>+ ''otto'' ''otto''" ..
  then have "call (Label_query ''otto'') self_referring = None"
    by (rule call_on_cycle)
  with r show ?thesis
    by (simp add: createQuery_label_def fails_with_def)
qed

text \<open>
  C4. For a GUID present in the database, the call of the closure of
  \<^verbatim>\<open>createQuery(guid)\<close> returns exactly the singleton of the value stored for it.
\<close>

theorem point_query_returns_singleton:
  assumes "guid_db s i = Some v"
  shows "call (createQuery_guid this i) s = Some (Inr {v}, s)"
  using assms
  by (simp add: createQuery_guid_def call_Guid_query find_second_def makeFlidxSet_def)

theorem point_query_returns_singleton_witness:
  "guid_db main_factory 16 = Some 1
   \<and> call (createQuery_guid main_factory 16) main_factory = Some (Inr {1}, main_factory)"
proof -
  have h: "guid_db main_factory 16 = Some 1"
    by (simp add: main_factory_def main_guid_db_def)
  from h point_query_returns_singleton [OF h, of main_factory] show ?thesis by simp
qed

text \<open>
  C5. For two GUIDs present in the database whose values \<open>lo \<le> hi\<close> are so close that
  \<open>hi - lo + 1\<close> is an \<^verbatim>\<open>int\<close>, the call of the range closure returns the set of all values
  from \<open>lo\<close> to \<open>hi\<close>; it has \<open>hi - lo + 1\<close> elements and contains both ends.
\<close>

theorem range_query_returns_interval:
  assumes "guid_db s first = Some lo" and "guid_db s last' = Some hi"
    and "lo \<le>s hi" and "sint hi - sint lo + 1 < 2 ^ 31"
  shows "call (createQuery_guidrange this first last') s
           = Some (Inr {v. lo \<le>s v \<and> v \<le>s hi}, s)
         \<and> card {v. lo \<le>s v \<and> v \<le>s hi} = nat (sint hi - sint lo + 1)
         \<and> lo \<in> {v. lo \<le>s v \<and> v \<le>s hi} \<and> hi \<in> {v. lo \<le>s v \<and> v \<le>s hi}"
proof -
  from assms(3) have le: "sint lo \<le> sint hi" by (simp add: word_sle_eq)
  note r = makeFlidxSet_range_ordered [OF le assms(4)]
  have "call (createQuery_guidrange this first last') s
           = Some (Inr {v. lo \<le>s v \<and> v \<le>s hi}, s)"
    by (simp add: createQuery_guidrange_def call_Guidrange_query find_second_def assms(1,2) r(1))
  with r(2) assms(3) show ?thesis by simp
qed

theorem range_query_returns_interval_witness:
  "guid_db main_factory 0 = Some 0 \<and> guid_db main_factory 32 = Some 2
   \<and> (0 :: Flidx) \<le>s 2 \<and> sint (2 :: Flidx) - sint (0 :: Flidx) + 1 < 2 ^ 31
   \<and> call (createQuery_guidrange main_factory 0 32) main_factory
       = Some (Inr {v. 0 \<le>s v \<and> v \<le>s 2}, main_factory)
   \<and> card {v :: Flidx. 0 \<le>s v \<and> v \<le>s 2} = 3"
proof -
  have h1: "guid_db main_factory 0 = Some 0" and h2: "guid_db main_factory 32 = Some 2"
    by (simp_all add: main_factory_def main_guid_db_def)
  have h3: "(0 :: Flidx) \<le>s 2" by (simp add: word_sle_eq)
  have h4: "sint (2 :: Flidx) - sint (0 :: Flidx) + 1 < 2 ^ 31" by simp
  from h1 h2 h3 h4 range_query_returns_interval [OF h1 h2 h3 h4, of main_factory]
  show ?thesis by simp
qed

text \<open>
  As the claim is worded, this holds for all \<open>lo \<le> hi\<close>. For \<open>lo = -1\<close> and
  \<open>hi = INT_MAX\<close> the length \<open>hi - lo + 1\<close> leaves the range of \<^verbatim>\<open>int\<close>; the wrapped length is
  negative and the call throws instead of returning a set.
\<close>

theorem range_query_overflow_counterexample:
  "guid_db wide_factory 0 = Some (- 1) \<and> guid_db wide_factory 1 = Some 2147483647
   \<and> (- 1 :: Flidx) \<le>s 2147483647
   \<and> call (createQuery_guidrange wide_factory 0 1) wide_factory
       = Some (Inl Throw_length_error, wide_factory)"
proof -
  have "sint (2147483647 - (- 1) + 1 :: 32 word) < 0" by simp
  then have "makeFlidxSet_range (- 1) 2147483647 = Inl Throw_length_error"
    by (simp add: makeFlidxSet_range_def vector_ctor_neg)
  then show ?thesis
    by (simp add: createQuery_guidrange_def call_Guidrange_query find_second_def word_sle_eq
        wide_factory_def)
qed

text \<open>
  C6. When the call of every child returns a set, the call of the list closure returns
  the union of those sets. The union is taken over the set of children, so every list with
  the same children, in whatever order, gives the same result; the empty list gives the
  empty set.
\<close>

theorem list_query_returns_union:
  assumes "\<forall>q\<in>set queries. succeeds (call q s)"
  shows "call (createQuery_list this queries) s
           = Some (Inr (\<Union>q\<in>set queries. returned (call q s)), s)
         \<and> (set queries' = set queries \<longrightarrow>
              call (createQuery_list this queries') s = call (createQuery_list this queries) s)
         \<and> call (createQuery_list this []) s = Some (Inr {}, s)"
proof (intro conjI impI)
  show a: "call (createQuery_list this queries) s
           = Some (Inr (\<Union>q\<in>set queries. returned (call q s)), s)"
    using assms by (simp add: createQuery_list_def call_list_all_succeed)
  show "call (createQuery_list this queries') s = call (createQuery_list this queries) s"
    if eq: "set queries' = set queries"
  proof -
    from assms eq have "\<forall>q\<in>set queries'. succeeds (call q s)" by simp
    then have "call (List_query queries') s
           = Some (Inr (\<Union>q\<in>set queries'. returned (call q s)), s)"
      by (rule call_list_all_succeed)
    with a eq show ?thesis by (simp add: createQuery_list_def)
  qed
  show "call (createQuery_list this []) s = Some (Inr {}, s)"
    by (simp add: createQuery_list_def call_List_query)
qed

theorem list_query_returns_union_witness:
  "list_all (\<lambda>q. succeeds (call q main_registered)) main_queries
   \<and> set (rev main_queries) = set main_queries
   \<and> call (createQuery_list main_factory main_queries) main_registered
       = Some (Inr {0, 1, 2, 3}, main_registered)
   \<and> call (createQuery_list main_factory (rev main_queries)) main_registered
       = Some (Inr {0, 1, 2, 3}, main_registered)"
proof -
  have h: "\<forall>q\<in>set main_queries. succeeds (call q main_registered)"
    by (simp add: main_queries_def call_otto call_main_points succeeds_def)
  have p: "set (rev main_queries) = set main_queries" by simp
  have u: "(\<Union>q\<in>set main_queries. returned (call q main_registered)) = {0, 1, 2, 3}"
    by (simp add: main_queries_def call_otto call_main_points returned_def insert_commute)
  from list_query_returns_union [OF h, of main_factory "rev main_queries"] h p u
  show ?thesis by (simp add: list_all_iff)
qed

text \<open>
  C7. For a GUID absent from the database, the call of the closure of
  \<^verbatim>\<open>createQuery(guid)\<close> reads through the past-the-end iterator of the GUID database:
  undefined behaviour, which reports no error kind.
\<close>

theorem point_query_absent_undefined:
  assumes "guid_db s i = None"
  shows "call (createQuery_guid this i) s = Some (Inl UB_deref_end, s)
         \<and> \<not> fails_with e (call (createQuery_guid this i) s)"
  using assms
  by (simp add: createQuery_guid_def call_Guid_query find_second_def fails_with_def)

theorem point_query_absent_undefined_witness:
  "guid_db main_factory 48 = None
   \<and> call (createQuery_guid main_factory 48) main_factory = Some (Inl UB_deref_end, main_factory)
   \<and> \<not> fails_with NotFound (call (createQuery_guid main_factory 48) main_factory)"
proof -
  have h: "guid_db main_factory 48 = None"
    by (simp add: main_factory_def main_guid_db_def)
  from h point_query_absent_undefined [OF h, of main_factory NotFound] show ?thesis by blast
qed

text \<open>
  As the claim is worded, the call fails with \<open>NotFound\<close>. For GUID 1, absent from the
  driver's database, it does not.
\<close>

theorem point_query_absent_counterexample:
  "guid_db main_factory 1 = None
   \<and> call (createQuery_guid main_factory 1) main_factory = Some (Inl UB_deref_end, main_factory)
   \<and> \<not> fails_with NotFound (call (createQuery_guid main_factory 1) main_factory)"
  by (simp add: main_factory_def main_guid_db_def createQuery_guid_def call_Guid_query
      find_second_def fails_with_def)

text \<open>
  C8. Each of the four \<^verbatim>\<open>createQuery\<close> overloads returns a closure that depends on its
  arguments only: whatever the databases of the context contain, the same closure is
  built, so nothing is looked up and nothing can be missing at construction.
\<close>

theorem createQuery_reads_nothing:
  "createQuery_guid this guid = createQuery_guid this' guid
   \<and> createQuery_guidrange this first last' = createQuery_guidrange this' first last'
   \<and> createQuery_label this label = createQuery_label this' label
   \<and> createQuery_list this queries = createQuery_list this' queries"
  by (simp add: createQuery_guid_def createQuery_guidrange_def createQuery_label_def
      createQuery_list_def)

text \<open>
  C9. A call that returns or throws leaves both databases as they were, and a second call
  of the same closure in the state the first one left gives the same outcome.
\<close>

theorem call_leaves_databases:
  assumes "call q s = Some (r, s')"
  shows "s' = s \<and> call q s' = Some (r, s')"
proof -
  from call_frame [OF assms] have "s' = s" by simp
  with assms show ?thesis by simp
qed

theorem call_leaves_databases_witness:
  "call (createQuery_guidrange main_factory 64 16) main_factory
     = Some (Inl Throw_length_error, main_factory)
   \<and> call (createQuery_list main_factory main_queries) main_registered
       = Some (Inr {0, 1, 2, 3}, main_registered)"
proof -
  note h = call_reversed_range
  have "\<forall>q\<in>set main_queries. succeeds (call q main_registered)"
    by (simp add: main_queries_def call_otto call_main_points succeeds_def)
  then have "call (List_query main_queries) main_registered
      = Some (Inr (\<Union>q\<in>set main_queries. returned (call q main_registered)), main_registered)"
    by (rule call_list_all_succeed)
  moreover have "(\<Union>q\<in>set main_queries. returned (call q main_registered)) = {0, 1, 2, 3}"
    by (simp add: main_queries_def call_otto call_main_points returned_def insert_commute)
  ultimately have g: "call (createQuery_list main_factory main_queries) main_registered
       = Some (Inr {0, 1, 2, 3}, main_registered)"
    by (simp add: createQuery_list_def)
  from call_leaves_databases [OF h] call_leaves_databases [OF g] show ?thesis by simp
qed

text \<open>
  C10. The closure of \<^verbatim>\<open>createQuery(queries)\<close> holds the content that the caller's vector
  had when the closure was built. Whatever the caller does to its vectors afterwards, giving
  them new contents or ending their lifetime, every later call of the closure has the
  outcome of a call made right after construction, and that outcome comes from the captured
  children in list order: when all of them return a set, the union of those sets, which
  contains the value of every GUID query among them; otherwise the outcome of the first
  child in the list that does not return a set, whatever the children after it would do.
  The list is thereby fixed at construction, where a group reference follows the group
  database at every call.
\<close>

theorem list_query_captures_vector_by_value:
  assumes "vectors d a = Some queries"
    and "createQuery_vector d a = Some list_query"
  shows "invoke list_query (fold caller_step later d) = invoke list_query d
    \<and> ((\<forall>c\<in>set queries. succeeds (call c (factory d))) \<longrightarrow>
         invoke list_query (fold caller_step later d)
           = Some (Inr (\<Union>c\<in>set queries. returned (call c (factory d))), factory d))
    \<and> ((\<forall>c\<in>set queries. succeeds (call c (factory d)))
         \<and> createQuery_guid this guid \<in> set queries \<and> guid_db (factory d) guid = Some v \<longrightarrow>
         v \<in> returned (invoke list_query (fold caller_step later d)))
    \<and> (queries = pre @ q # post \<and> (\<forall>c\<in>set pre. succeeds (call c (factory d)))
         \<and> \<not> succeeds (call q (factory d)) \<longrightarrow>
         invoke list_query (fold caller_step later d) = call q (factory d))"
proof -
  from assms have lq: "list_query = List_query queries"
    by (auto simp: createQuery_vector_def createQuery_list_def)
  have inv: "invoke list_query (fold caller_step later d) = call (List_query queries) (factory d)"
    by (simp add: invoke_def factory_caller_steps lq)
  have all: "call (List_query queries) (factory d)
           = Some (Inr (\<Union>c\<in>set queries. returned (call c (factory d))), factory d)"
    if "\<forall>c\<in>set queries. succeeds (call c (factory d))"
    using that by (rule call_list_all_succeed)
  have leaf: "v \<in> returned (call (List_query queries) (factory d))"
    if "\<forall>c\<in>set queries. succeeds (call c (factory d))"
      and "createQuery_guid this guid \<in> set queries" and "guid_db (factory d) guid = Some v"
  proof -
    from that(3) have "returned (call (createQuery_guid this guid) (factory d)) = {v}"
      by (simp add: createQuery_guid_def call_Guid_query find_second_def makeFlidxSet_def
          returned_def)
    with that(2) have "v \<in> (\<Union>c\<in>set queries. returned (call c (factory d)))" by blast
    then show ?thesis by (simp add: all [OF that(1)] returned_def)
  qed
  have first: "call (List_query queries) (factory d) = call q (factory d)"
    if "queries = pre @ q # post" and "\<forall>c\<in>set pre. succeeds (call c (factory d))"
      and "\<not> succeeds (call q (factory d))"
    unfolding that(1) using that(2,3) by (rule call_list_first_unsuccessful)
  show ?thesis
    unfolding inv
    using all leaf first by (simp add: invoke_def lq)
qed

text \<open>
  In \<^verbatim>\<open>main\<close> the vector is gone when the query is called, and the call returns the four
  values. In the second caller the first child fails on an absent GUID, so the list fails
  in the same way although the child after it would not return and the caller has emptied
  its vector.
\<close>

theorem list_query_captures_vector_by_value_witness:
  "vectors main_driver 0 = Some main_queries
   \<and> createQuery_vector main_driver 0 = Some (List_query main_queries)
   \<and> vectors (fold caller_step [Destroy 0] main_driver) 0 = None
   \<and> invoke (List_query main_queries) (fold caller_step [Destroy 0] main_driver)
       = Some (Inr {0, 1, 2, 3}, main_registered)
   \<and> 1 \<in> returned (invoke (List_query main_queries) (fold caller_step [Destroy 0] main_driver))
   \<and> vectors failing_driver 0
       = Some [createQuery_guid self_referring 48, createQuery_label self_referring ''otto'']
   \<and> vectors (fold caller_step [Assign 0 []] failing_driver) 0 = Some []
   \<and> invoke (List_query [createQuery_guid self_referring 48,
                           createQuery_label self_referring ''otto''])
         (fold caller_step [Assign 0 []] failing_driver)
       = Some (Inl UB_deref_end, self_referring)"
proof -
  have v: "vectors main_driver 0 = Some main_queries"
    and b: "createQuery_vector main_driver 0 = Some (List_query main_queries)"
    and f: "factory main_driver = main_registered"
    by (simp_all add: main_driver_def createQuery_vector_def createQuery_list_def)
  have h: "\<forall>c\<in>set main_queries. succeeds (call c main_registered)"
    by (simp add: main_queries_def call_otto call_main_points succeeds_def)
  have u: "(\<Union>c\<in>set main_queries. returned (call c main_registered)) = {0, 1, 2, 3}"
    by (simp add: main_queries_def call_otto call_main_points returned_def insert_commute)
  have m: "createQuery_guid main_factory 16 \<in> set main_queries"
    and g: "guid_db main_registered 16 = Some 1"
    by (simp_all add: main_queries_def main_registered_def register_group_def
        main_factory_def main_guid_db_def)
  note main = list_query_captures_vector_by_value
    [OF v b, of "[Destroy 0]" main_factory 16 1 "[]" "createQuery_guid main_factory 16" "[]",
       unfolded f]
  from main h
  have "invoke (List_query main_queries) (fold caller_step [Destroy 0] main_driver)
       = Some (Inr (\<Union>c\<in>set main_queries. returned (call c main_registered)), main_registered)"
    by blast
  then have r1: "invoke (List_query main_queries) (fold caller_step [Destroy 0] main_driver)
       = Some (Inr {0, 1, 2, 3}, main_registered)"
    by (simp only: u)
  from main h m g
  have r2: "1 \<in> returned (invoke (List_query main_queries) (fold caller_step [Destroy 0] main_driver))"
    by blast
  have d1: "vectors (fold caller_step [Destroy 0] main_driver) 0 = None"
    by simp
  let ?qs = "[createQuery_guid self_referring 48, createQuery_label self_referring ''otto'']"
  have v': "vectors failing_driver 0 = Some ?qs"
    and b': "createQuery_vector failing_driver 0 = Some (List_query ?qs)"
    and f': "factory failing_driver = self_referring"
    by (simp_all add: failing_driver_def createQuery_vector_def createQuery_list_def)
  have q: "call (createQuery_guid self_referring 48) self_referring
             = Some (Inl UB_deref_end, self_referring)"
    by (simp add: createQuery_guid_def call_Guid_query find_second_def self_referring_def
        register_group_def main_factory_def main_guid_db_def)
  then have nq: "\<not> succeeds (call (createQuery_guid self_referring 48) self_referring)"
    by (simp add: succeeds_def)
  have e: "?qs = [] @ createQuery_guid self_referring 48
                     # [createQuery_label self_referring ''otto'']"
    and p: "\<forall>c\<in>set []. succeeds (call c self_referring)"
    by simp_all
  note failing = list_query_captures_vector_by_value
    [OF v' b', of "[Assign 0 []]" main_factory 16 1 "[]" "createQuery_guid self_referring 48"
       "[createQuery_label self_referring ''otto'']", unfolded f']
  from failing e p nq
  have "invoke (List_query ?qs) (fold caller_step [Assign 0 []] failing_driver)
       = call (createQuery_guid self_referring 48) self_referring"
    by blast
  then have r3: "invoke (List_query ?qs) (fold caller_step [Assign 0 []] failing_driver)
       = Some (Inl UB_deref_end, self_referring)"
    by (simp only: q)
  have d2: "vectors (fold caller_step [Assign 0 []] failing_driver) 0 = Some []"
    by simp
  from v b d1 r1 r2 v' d2 r3 show ?thesis by blast
qed

end
